theory Spec2Isabelle
  imports Main
begin

unbundle bit_operations_syntax

section \<open>MicroIni: the line classifier and the parse loop of \<^verbatim>\<open>src/src/micro_ini.c\<close>\<close>

text \<open>
  The embedding follows the C source function by function.  Bytes are \<^typ>\<open>char\<close>
  (8 bits), a C string is the run of bytes before the first NUL, and the array
  \<^verbatim>\<open>char line[MICRO_INI_MAX_LINE_LENGTH + 1]\<close> is a memory \<^typ>\<open>int \<Rightarrow> char\<close> indexed from the
  start of the array, so that the reads the code makes at \<^verbatim>\<open>line[-1]\<close> and behind the
  terminator are reads of definite (entry-time) bytes.  The output arrays
  \<^verbatim>\<open>section\<close>, \<^verbatim>\<open>key\<close> and \<^verbatim>\<open>val\<close> are only ever used as C strings and are modelled as
  \<^typ>\<open>string\<close>.  The counters \<^verbatim>\<open>lineno\<close> and \<^verbatim>\<open>numErrors\<close> are mathematical integers
  (an input of fewer than \<open>2^31\<close> lines cannot overflow them).
\<close>

subsection \<open>Characters\<close>

abbreviation NUL :: char where "NUL \<equiv> CHR 0x00"
abbreviation NEWLINE :: char where "NEWLINE \<equiv> CHR 0x0A"
abbreviation DQUOTE :: char where "DQUOTE \<equiv> CHR 0x22"
abbreviation SQUOTE :: char where "SQUOTE \<equiv> CHR 0x27"
abbreviation BACKSLASH :: char where "BACKSLASH \<equiv> CHR 0x5C"
abbreviation EQUALS :: char where "EQUALS \<equiv> CHR 0x3D"

text \<open>\<^verbatim>\<open>isspace\<close> of \<^verbatim>\<open>ctype.h\<close> in the "C" locale: space, \<^verbatim>\<open>\t \n \v \f \r\<close>.\<close>

definition isspace :: "char \<Rightarrow> bool" where
  "isspace c = (c = CHR 0x20 \<or> c = CHR 0x09 \<or> c = CHR 0x0A \<or> c = CHR 0x0B
                \<or> c = CHR 0x0C \<or> c = CHR 0x0D)"

subsection \<open>\<^verbatim>\<open>prv_micro_ini_strstrip\<close>\<close>

text \<open>
  The function skips the whitespace at the beginning (\<^verbatim>\<open>++start\<close>), ignores the
  whitespace at the end (\<^verbatim>\<open>--end\<close>), and shifts the region between to the front of the
  array; an empty or all-whitespace string becomes empty.
\<close>

definition prv_micro_ini_strstrip :: "string \<Rightarrow> string" where
  "prv_micro_ini_strstrip ln =
     (let from_start = dropWhile isspace ln
      in rev (dropWhile isspace (rev from_start)))"

subsection \<open>The directives of \<^verbatim>\<open>sscanf\<close> that the classifier uses\<close>

text \<open>
  A format is a list of directives: white space (skips any run of white space, never
  fails), an ordinary character (must be the next input character), and the
  conversion \<^verbatim>\<open>%[...]\<close> / \<^verbatim>\<open>%[^...]\<close>, which stores the longest non-empty run of characters
  in (not in) the set and fails on an empty run.  The result is the return value of
  \<^verbatim>\<open>sscanf\<close> (the number of strings stored; \<^verbatim>\<open>EOF\<close> when the input ends before the first
  conversion) and the strings stored, in order.
\<close>

datatype directive = WS | Lit char | Scanset bool string

definition EOF :: int where "EOF = - 1"

definition in_scanset :: "bool \<Rightarrow> string \<Rightarrow> char \<Rightarrow> bool" where
  "in_scanset negated cs c = (if negated then c \<notin> set cs else c \<in> set cs)"

definition input_failure :: "string list \<Rightarrow> int \<times> string list" where
  "input_failure outs = (if outs = [] then (EOF, outs) else (int (length outs), outs))"

fun scan :: "directive list \<Rightarrow> string \<Rightarrow> string list \<Rightarrow> int \<times> string list" where
  "scan [] inp outs = (int (length outs), outs)"
| "scan (WS # ds) inp outs = scan ds (dropWhile isspace inp) outs"
| "scan (Lit c # ds) inp outs =
     (case inp of
        [] \<Rightarrow> input_failure outs
      | x # xs \<Rightarrow> if x = c then scan ds xs outs else (int (length outs), outs))"
| "scan (Scanset negated cs # ds) inp outs =
     (case inp of
        [] \<Rightarrow> input_failure outs
      | x # xs \<Rightarrow>
          if in_scanset negated cs x
          then scan ds (dropWhile (in_scanset negated cs) inp)
                 (outs @ [takeWhile (in_scanset negated cs) inp])
          else (int (length outs), outs))"

definition sscanf :: "string \<Rightarrow> directive list \<Rightarrow> int \<times> string list" where
  "sscanf str fmt = scan fmt str []"

text \<open>The six format strings of \<^verbatim>\<open>prv_micro_ini_parse_line\<close>, in the order of the source.\<close>

definition fmt_section :: "directive list" where
  \<comment> \<open>\<^verbatim>\<open>"[%[^]]"\<close>\<close>
  "fmt_section = [Lit (CHR ''[''), Scanset True '']'']"

definition fmt_dquoted :: "directive list" where
  \<comment> \<open>\<^verbatim>\<open>"%[^=] = \"%[^\"]\""\<close>\<close>
  "fmt_dquoted = [Scanset True ''='', WS, Lit (CHR ''=''), WS, Lit DQUOTE,
                  Scanset True [DQUOTE], Lit DQUOTE]"

definition fmt_squoted :: "directive list" where
  \<comment> \<open>\<^verbatim>\<open>"%[^=] = '%[^\']'"\<close>\<close>
  "fmt_squoted = [Scanset True ''='', WS, Lit (CHR ''=''), WS, Lit SQUOTE,
                  Scanset True [SQUOTE], Lit SQUOTE]"

definition fmt_unquoted :: "directive list" where
  \<comment> \<open>\<^verbatim>\<open>"%[^=] = %[^;#]"\<close>\<close>
  "fmt_unquoted = [Scanset True ''='', WS, Lit (CHR ''=''), WS, Scanset True '';#'']"

definition fmt_comment_only :: "directive list" where
  \<comment> \<open>\<^verbatim>\<open>"%[^=] = %[;#]"\<close>\<close>
  "fmt_comment_only = [Scanset True ''='', WS, Lit (CHR ''=''), WS, Scanset False '';#'']"

definition fmt_bare_key :: "directive list" where
  \<comment> \<open>\<^verbatim>\<open>"%[^=] %[=]"\<close>\<close>
  "fmt_bare_key = [Scanset True ''='', WS, Scanset False ''='']"

text \<open>
  \<^verbatim>\<open>sscanf(line, fmt, key, value)\<close> stores into \<^verbatim>\<open>key\<close> and \<^verbatim>\<open>value\<close> as far as it gets:
  a call that returns 1 has already overwritten \<^verbatim>\<open>key\<close>.
\<close>

fun stored2 :: "string list \<Rightarrow> string \<times> string \<Rightarrow> string \<times> string" where
  "stored2 [] (k, v) = (k, v)"
| "stored2 [a] (k, v) = (a, v)"
| "stored2 (a # b # rest) (k, v) = (a, b)"

fun stored1 :: "string list \<Rightarrow> string \<Rightarrow> string" where
  "stored1 [] s = s"
| "stored1 (a # rest) s = a"

subsection \<open>Memory and C strings\<close>

definition MICRO_INI_MAX_LINE_LENGTH :: int where
  "MICRO_INI_MAX_LINE_LENGTH = 512"

type_synonym memory = "int \<Rightarrow> char"

text \<open>
  The C string at index \<open>i\<close> of the array: the bytes up to the first NUL.  The scan is
  cut at the end of the array (index \<open>MICRO_INI_MAX_LINE_LENGTH + 1\<close>), which it never
  reaches in a run of the parse loop: the reader always stores a terminator inside.
\<close>

function c_str :: "memory \<Rightarrow> int \<Rightarrow> string" where
  "c_str m i =
     (if MICRO_INI_MAX_LINE_LENGTH + 1 \<le> i \<or> m i = NUL then []
      else m i # c_str m (i + 1))"
  by pat_completeness auto
termination
  by (relation "measure (\<lambda>(m, i). nat (MICRO_INI_MAX_LINE_LENGTH + 1 - i))") auto

declare c_str.simps [simp del]

definition strlen :: "memory \<Rightarrow> int" where
  "strlen m = int (length (c_str m 0))"

subsection \<open>\<^verbatim>\<open>prv_micro_ini_parse_line\<close>\<close>

datatype LineStatus =
  LINE_UNPROCESSED | LINE_EMPTY | LINE_ERROR | LINE_COMMENT | LINE_SECTION | LINE_VALUE

text \<open>
  The argument \<open>line\<close> is the index in the array that the pointer \<^verbatim>\<open>line\<close> of the source
  points at, \<open>len\<close> the length the caller computed.  The result is the status with the
  contents of the three output strings after the call.
\<close>

definition quoted_value :: "string \<Rightarrow> string" where
  \<comment> \<open>the branch of lines 148--159: strip, then turn a value that is \<^verbatim>\<open>""\<close> or \<^verbatim>\<open>''\<close> into the empty string\<close>
  "quoted_value v =
     (let v1 = prv_micro_ini_strstrip v
      in if v1 = [DQUOTE, DQUOTE] \<or> v1 = [SQUOTE, SQUOTE] then [] else v1)"

definition prv_micro_ini_parse_line ::
  "memory \<Rightarrow> int \<Rightarrow> int \<Rightarrow> string \<Rightarrow> string \<Rightarrow> string
     \<Rightarrow> LineStatus \<times> string \<times> string \<times> string" where
  "prv_micro_ini_parse_line m line len sectn key val =
     (let str = c_str m line in
      if len = 0 then (LINE_EMPTY, sectn, key, val)
      else if m line = CHR ''#'' \<or> m line = CHR '';'' then (LINE_COMMENT, sectn, key, val)
      else if m line = CHR ''['' \<and> m (line + len - 1) = CHR '']'' then
        (LINE_SECTION,
         prv_micro_ini_strstrip (stored1 (snd (sscanf str fmt_section)) sectn), key, val)
      else
        let (r1, o1) = sscanf str fmt_dquoted; (k1, v1) = stored2 o1 (key, val) in
        if r1 = 2 then (LINE_VALUE, sectn, prv_micro_ini_strstrip k1, quoted_value v1)
        else
        let (r2, o2) = sscanf str fmt_squoted; (k2, v2) = stored2 o2 (k1, v1) in
        if r2 = 2 then (LINE_VALUE, sectn, prv_micro_ini_strstrip k2, quoted_value v2)
        else
        let (r3, o3) = sscanf str fmt_unquoted; (k3, v3) = stored2 o3 (k2, v2) in
        if r3 = 2
        then (LINE_VALUE, sectn, prv_micro_ini_strstrip k3, prv_micro_ini_strstrip v3)
        else
        let (r4, o4) = sscanf str fmt_comment_only; (k4, v4) = stored2 o4 (k3, v3) in
        if r4 = 2 then (LINE_VALUE, sectn, prv_micro_ini_strstrip k4, [])
        else
        let (r5, o5) = sscanf str fmt_bare_key; (k5, v5) = stored2 o5 (k4, v4) in
        if r5 = 2 then (LINE_VALUE, sectn, prv_micro_ini_strstrip k5, [])
        else (LINE_ERROR, sectn, k5, v5))"

text \<open>A memory that holds the C string \<open>s\<close> at index 0 and NUL everywhere else.\<close>

definition mem_of :: "string \<Rightarrow> memory" where
  "mem_of s = (\<lambda>i. if 0 \<le> i \<and> i < int (length s) then s ! nat i else NUL)"

text \<open>
  The value that an assignment line \<open>key = rest\<close> stores, as a function of the text
  \<open>rest\<close> behind the first \<open>=\<close>: what the cascade of the five formats computes (proved
  below as \<open>parse_line_assignment\<close>).
\<close>

definition starts_quoted :: "char \<Rightarrow> string \<Rightarrow> bool" where
  "starts_quoted q d = (case d of x # y # ys \<Rightarrow> x = q \<and> y \<noteq> q | _ \<Rightarrow> False)"

definition starts_comment :: "string \<Rightarrow> bool" where
  "starts_comment d = (case d of x # xs \<Rightarrow> x = CHR '';'' \<or> x = CHR ''#'' | _ \<Rightarrow> False)"

definition assigned_value :: "string \<Rightarrow> string" where
  "assigned_value r =
     (let d = dropWhile isspace r in
      if starts_quoted DQUOTE d then quoted_value (takeWhile (\<lambda>c. c \<noteq> DQUOTE) (tl d))
      else if starts_quoted SQUOTE d then quoted_value (takeWhile (\<lambda>c. c \<noteq> SQUOTE) (tl d))
      else prv_micro_ini_strstrip (takeWhile (\<lambda>c. c \<noteq> CHR '';'' \<and> c \<noteq> CHR ''#'') d))"

subsection \<open>The stream behind \<^verbatim>\<open>pStream\<close>, with \<^verbatim>\<open>fgets\<close> and \<^verbatim>\<open>feof\<close>\<close>

text \<open>
  \<^verbatim>\<open>micro_ini_load_file\<close> passes \<^verbatim>\<open>fgets\<close> and \<^verbatim>\<open>feof\<close> as the two callbacks, and a
  custom reader "must conform to fgets() functionality".  The stream is the bytes
  still to be read and the end-of-file indicator.  \<^verbatim>\<open>fgets(str, num, stream)\<close> reads at
  most \<open>num - 1\<close> bytes, stops after a newline, sets the indicator when it runs into
  the end of the stream, and returns \<^verbatim>\<open>NULL\<close> when it has read nothing.
\<close>

record stream =
  bytes :: string
  at_eof :: bool

fun fgets_chars :: "nat \<Rightarrow> string \<Rightarrow> string \<times> string \<times> bool" where
  "fgets_chars 0 bs = ([], bs, False)"
| "fgets_chars (Suc n) [] = ([], [], True)"
| "fgets_chars (Suc n) (c # bs) =
     (if c = NEWLINE then ([c], bs, False)
      else (case fgets_chars n bs of (r, bs', e) \<Rightarrow> (c # r, bs', e)))"

definition fgets :: "int \<Rightarrow> stream \<Rightarrow> string option \<times> stream" where
  "fgets num st =
     (case fgets_chars (nat (num - 1)) (bytes st) of
        (r, bs', e) \<Rightarrow>
          (if r = [] then None else Some r, \<lparr>bytes = bs', at_eof = (at_eof st \<or> e)\<rparr>))"

definition feof :: "stream \<Rightarrow> bool" where
  "feof st = at_eof st"

text \<open>Storing bytes into the array from index \<open>off\<close> on.\<close>

definition store :: "memory \<Rightarrow> int \<Rightarrow> string \<Rightarrow> memory" where
  "store m off bs =
     (\<lambda>i. if off \<le> i \<and> i < off + int (length bs) then bs ! nat (i - off) else m i)"

subsection \<open>\<^verbatim>\<open>micro_ini_load_stream\<close>\<close>

definition MICRO_INI_SUCCESS :: int where "MICRO_INI_SUCCESS = 0"
definition MICRO_INI_ERROR_INVALID_FILE_OBJECT :: int where
  "MICRO_INI_ERROR_INVALID_FILE_OBJECT = - 1"
definition MICRO_INI_ERROR_INVALID_STREAM_OBJECT :: int where
  "MICRO_INI_ERROR_INVALID_STREAM_OBJECT = - 2"
definition MICRO_INI_ERROR_INVALID_HANDLER_CALLBACK :: int where
  "MICRO_INI_ERROR_INVALID_HANDLER_CALLBACK = - 3"
definition MICRO_INI_ERROR_INVALID_READER_CALLBACK :: int where
  "MICRO_INI_ERROR_INVALID_READER_CALLBACK = - 4"
definition MICRO_INI_ERROR_INVALID_EOF_CALLBACK :: int where
  "MICRO_INI_ERROR_INVALID_EOF_CALLBACK = - 5"
definition MICRO_INI_ERROR_BUFFER_OVERFLOW :: int where
  "MICRO_INI_ERROR_BUFFER_OVERFLOW = - 6"

definition MICRO_INI_FLAG_BOM :: int where "MICRO_INI_FLAG_BOM = 0x1"
definition MICRO_INI_FLAG_MULTILINE :: int where "MICRO_INI_FLAG_MULTILINE = 0x2"
definition MICRO_INI_FLAG_STOP_ON_FIRST_ERROR :: int where
  "MICRO_INI_FLAG_STOP_ON_FIRST_ERROR = 0x4"

text \<open>
  What a run does is recorded as a trace: every call of the reader (with the bytes it
  stored, \<open>None\<close> for \<^verbatim>\<open>NULL\<close>), of the eof callback (with its answer), of
  \<^verbatim>\<open>prv_micro_ini_parse_line\<close> (the C string it was given, its \<open>len\<close>, the status
  it returned and the section buffer after the call), of the handler callback and of
  the error callback, with their arguments.
\<close>

datatype event =
    Reader_call "string option"
  | Eof_call bool
  | Parse_line string int LineStatus string
  | Handler_call string string string
  | Error_call string int

text \<open>
  The local variables of \<^verbatim>\<open>micro_ini_load_stream\<close> that live across iterations
  (\<open>sectn\<close> is \<^verbatim>\<open>section\<close> and \<open>lastp\<close> is \<^verbatim>\<open>last\<close>: both names are taken in Isabelle), and
  the trace so far.
\<close>

record locals =
  line :: memory
  sectn :: string
  key :: string
  val :: string
  lastp :: int
  lineno :: int
  firstLine :: bool
  numErrors :: int
  trace :: "event list"

text \<open>Lines 330--334: the whitespace at the end of the line is overwritten with NUL.\<close>

function strip_end :: "memory \<Rightarrow> int \<Rightarrow> memory \<times> int" where
  "strip_end m len =
     (if len \<ge> 0 \<and> isspace (m len) then strip_end (m(len := NUL)) (len - 1) else (m, len))"
  by pat_completeness auto
termination
  by (relation "measure (\<lambda>(m, len). nat (len + 1))") auto

declare strip_end.simps [simp del]

text \<open>Lines 350--354: \<^verbatim>\<open>start\<close> moves over the whitespace at the beginning of the line.\<close>

function strip_begin :: "memory \<Rightarrow> int \<Rightarrow> int \<Rightarrow> int \<times> int" where
  "strip_begin m start len =
     (if len \<ge> 0 \<and> isspace (m start) then strip_begin m (start + 1) (len - 1)
      else (start, len))"
  by pat_completeness auto
termination
  by (relation "measure (\<lambda>(m, start, len). nat (len + 1))") auto

declare strip_begin.simps [simp del]

text \<open>
  Lines 368--403: the switch on the status, and the reset of the line behind it.
  The result carries \<open>Some r\<close> when the function returns \<open>r\<close> from inside the switch.
\<close>

definition dispatch :: "int \<Rightarrow> bool \<Rightarrow> LineStatus \<Rightarrow> locals \<Rightarrow> locals \<times> int option" where
  "dispatch flags errorCallback status L =
     (case status of
        LINE_VALUE \<Rightarrow>
          (L\<lparr>line := (line L)(0 := NUL), lastp := 0,
             trace := trace L @ [Handler_call (sectn L) (key L) (val L)]\<rparr>, None)
      | LINE_ERROR \<Rightarrow>
          (let L1 = (if errorCallback
                     then L\<lparr>trace := trace L @ [Error_call (c_str (line L) 0) (lineno L)]\<rparr>
                     else L);
               L2 = L1\<lparr>numErrors := numErrors L1 + 1\<rparr>
           in if flags AND MICRO_INI_FLAG_STOP_ON_FIRST_ERROR \<noteq> 0
              then (L2, Some (numErrors L2))
              else (L2\<lparr>line := (line L2)(0 := NUL), lastp := 0\<rparr>, None))
      | _ \<Rightarrow> (L\<lparr>line := (line L)(0 := NUL), lastp := 0\<rparr>, None))"

text \<open>
  Lines 303--314: \<^verbatim>\<open>start\<close> is the line, or the line behind a byte order marker when this
  is still the first line and the flag is set.
\<close>

definition bom_start :: "int \<Rightarrow> locals \<Rightarrow> int" where
  "bom_start flags L =
     (if firstLine L \<and> flags AND MICRO_INI_FLAG_BOM \<noteq> 0
         \<and> line L 0 = CHR 0xEF \<and> line L 1 = CHR 0xBB \<and> line L 2 = CHR 0xBF
      then 3 else 0)"

text \<open>
  Lines 301--403: one pass through the body of the while loop, after the reader has
  stored its bytes.  \<open>eof\<close> is what the eof callback answers if it is asked.  The
  result carries \<open>None\<close> when the loop goes on (also by \<^verbatim>\<open>continue\<close>).
\<close>

definition iteration :: "int \<Rightarrow> bool \<Rightarrow> bool \<Rightarrow> locals \<Rightarrow> locals \<times> int option" where
  "iteration flags errorCallback eof L0 =
     (let L1 = L0\<lparr>lineno := lineno L0 + 1\<rparr>;
          len = strlen (line L1) - 1;
          start = bom_start flags L1
      in if len \<le> 0 then (L1, None)
         else if line L1 len \<noteq> NEWLINE \<and> \<not> eof
         then (L1\<lparr>trace := trace L1 @ [Eof_call eof]\<rparr>, Some MICRO_INI_ERROR_BUFFER_OVERFLOW)
         else
           let L2 = (if line L1 len \<noteq> NEWLINE
                     then L1\<lparr>trace := trace L1 @ [Eof_call eof]\<rparr> else L1);
               (m, len1) = strip_end (line L2) len
           in if m len1 = BACKSLASH \<and> flags AND MICRO_INI_FLAG_MULTILINE \<noteq> 0
              then (L2\<lparr>line := m, lastp := len1\<rparr>, None)
              else
                let (start1, len2) = strip_begin m start len1;
                    len3 = (if len2 < 0 then 0 else len2 + 1);
                    (status, s, k, v) =
                       prv_micro_ini_parse_line m start1 len3 (sectn L2) (key L2) (val L2);
                    L3 = L2\<lparr>line := m, lastp := 0, firstLine := False,
                            sectn := s, key := k, val := v,
                            trace := trace L2 @ [Parse_line (c_str m start1) len3 status s]\<rparr>
                in dispatch flags errorCallback status L3)"


lemma fgets_chars_shorter:
  "fgets_chars n bs = (r, bs', e) \<Longrightarrow> r \<noteq> [] \<Longrightarrow> length bs' < length bs"
proof (induction n bs arbitrary: r bs' e rule: fgets_chars.induct)
  case (3 n c bs)
  show ?case
  proof (cases "c = NEWLINE")
    case True
    with 3 show ?thesis by auto
  next
    case False
    obtain r0 b0 e0 where eq: "fgets_chars n bs = (r0, b0, e0)"
      by (cases "fgets_chars n bs") auto
    with False 3(2) have r: "r = c # r0" "bs' = b0" by auto
    have "length b0 \<le> length bs"
    proof (cases "r0 = []")
      case True
      then show ?thesis using eq by (cases n; cases bs) (auto split: if_splits prod.splits)
    next
      case False
      then show ?thesis using 3(1)[OF \<open>c \<noteq> NEWLINE\<close> eq] by simp
    qed
    then show ?thesis using r by simp
  qed
qed auto

lemma fgets_shorter:
  "fgets num st = (Some chunk, st') \<Longrightarrow> length (bytes st') < length (bytes st)"
  by (auto simp: fgets_def split: prod.splits if_splits dest: fgets_chars_shorter)

datatype outcome = Returned int | Undefined

text \<open>
  Lines 299--406: the while loop.  The reader stores at \<^verbatim>\<open>line + last\<close>; a store in front
  of the array (\<^verbatim>\<open>last\<close> is \<open>-1\<close>) is outside the model and ends the run as \<open>Undefined\<close>.
\<close>

function read_loop :: "int \<Rightarrow> bool \<Rightarrow> stream \<Rightarrow> locals \<Rightarrow> outcome \<times> event list" where
  "read_loop flags errorCallback st L =
     (case fgets (MICRO_INI_MAX_LINE_LENGTH - lastp L) st of
        (None, st') \<Rightarrow>
          (Returned (MICRO_INI_SUCCESS + numErrors L), trace L @ [Reader_call None])
      | (Some chunk, st') \<Rightarrow>
          if lastp L < 0 then (Undefined, trace L @ [Reader_call (Some chunk)])
          else
            (case iteration flags errorCallback (feof st')
                    (L\<lparr>line := store (line L) (lastp L) (chunk @ [NUL]),
                       trace := trace L @ [Reader_call (Some chunk)]\<rparr>) of
               (L', Some r) \<Rightarrow> (Returned r, trace L')
             | (L', None) \<Rightarrow> read_loop flags errorCallback st' L'))"
  by pat_completeness auto
termination
  by (relation "measure (\<lambda>(flags, errorCallback, st, L). length (bytes st))")
     (auto intro: fgets_shorter [OF sym])

declare read_loop.simps [simp del]

text \<open>
  Lines 248--298: the four checks and the initial values.  \<open>pStream\<close> is \<open>None\<close> for a
  null pointer; a callback argument is \<open>True\<close> when the pointer is not null.  \<open>stack\<close>
  gives the bytes that lie at \<^verbatim>\<open>line + i\<close> when the function is entered.
\<close>

definition micro_ini_load_stream ::
  "stream option \<Rightarrow> int \<Rightarrow> bool \<Rightarrow> bool \<Rightarrow> bool \<Rightarrow> bool \<Rightarrow> memory \<Rightarrow> outcome \<times> event list" where
  "micro_ini_load_stream pStream flags handlerCallback errorCallback readerCallback
       eofCallback stack =
     (case pStream of
        None \<Rightarrow> (Returned MICRO_INI_ERROR_INVALID_STREAM_OBJECT, [])
      | Some st \<Rightarrow>
          if \<not> handlerCallback then (Returned MICRO_INI_ERROR_INVALID_HANDLER_CALLBACK, [])
          else if \<not> readerCallback then (Returned MICRO_INI_ERROR_INVALID_READER_CALLBACK, [])
          else if \<not> eofCallback then (Returned MICRO_INI_ERROR_INVALID_EOF_CALLBACK, [])
          else
            read_loop flags errorCallback st
              \<lparr>line = stack(0 := NUL), sectn = [], key = [], val = [], lastp = 0,
               lineno = 0, firstLine = True, numErrors = 0, trace = []\<rparr>)"

text \<open>A stream over the bytes of a file that has not been read from yet.\<close>

definition file_of :: "string \<Rightarrow> stream" where
  "file_of bs = \<lparr>bytes = bs, at_eof = False\<rparr>"

subsection \<open>Reading a trace\<close>

text \<open>
  The malformed lines of a run are the calls of the classifier that returned
  \<open>LINE_ERROR\<close>; a run ended on the overflow check when its last event is the eof
  callback answering "not at the end".
\<close>

fun is_malformed :: "event \<Rightarrow> bool" where
  "is_malformed (Parse_line txt len status s) = (status = LINE_ERROR)"
| "is_malformed _ = False"

definition malformed_lines :: "event list \<Rightarrow> nat" where
  "malformed_lines tr = length (filter is_malformed tr)"


text \<open>
  Two runs are compared up to the line numbers they report: \<open>shift d\<close> adds \<open>d\<close> to the
  line number of an error report.  Two states are \<open>related\<close> when they differ at most in
  the line counter (by \<open>d\<close>), the array and the trace; two memories \<open>agree_upto N\<close> when
  they hold the same bytes at every index up to \<open>N\<close>.
\<close>

fun shift :: "int \<Rightarrow> event \<Rightarrow> event" where
  "shift d (Error_call raw n) = Error_call raw (n + d)"
| "shift d ev = ev"




definition rtrim :: "string \<Rightarrow> string" where
  "rtrim s = rev (dropWhile isspace (rev s))"










fun last_section :: "string \<Rightarrow> event list \<Rightarrow> string" where
  "last_section cur [] = cur"
| "last_section cur (Parse_line txt len status s # tr) = last_section s tr"
| "last_section cur (ev # tr) = last_section cur tr"




section \<open>Properties of the line classifier\<close>

subsection \<open>C strings in memory\<close>

lemma c_str_Nil_iff: "c_str m i = [] \<longleftrightarrow> (MICRO_INI_MAX_LINE_LENGTH + 1 \<le> i \<or> m i = NUL)"
  by (subst c_str.simps) simp

lemma c_str_Cons: "c_str m i = x # xs \<Longrightarrow> m i = x \<and> x \<noteq> NUL \<and> c_str m (i + 1) = xs \<and> i \<le> MICRO_INI_MAX_LINE_LENGTH"
  by (subst (asm) c_str.simps) (auto split: if_splits)

lemma c_str_nth:
  "c_str m i = s \<Longrightarrow> j < length s \<Longrightarrow> m (i + int j) = s ! j"
proof (induction s arbitrary: i j)
  case Nil
  then show ?case by simp
next
  case (Cons x xs)
  from c_str_Cons[OF Cons.prems(1)] have h: "m i = x" "c_str m (i + 1) = xs" by auto
  show ?case
  proof (cases j)
    case 0
    then show ?thesis using h by simp
  next
    case (Suc j')
    with Cons.prems have "j' < length xs" by simp
    from Cons.IH[OF h(2) this] show ?thesis using Suc by (simp add: add.commute add.left_commute)
  qed
qed

lemma c_str_hd: "c_str m i = s \<Longrightarrow> s \<noteq> [] \<Longrightarrow> m i = hd s"
  using c_str_nth[of m i s 0] by (cases s) auto

lemma c_str_last: "c_str m i = s \<Longrightarrow> s \<noteq> [] \<Longrightarrow> m (i + int (length s) - 1) = last s"
  using c_str_nth[of m i s "length s - 1"] by (cases s rule: rev_cases) (auto simp: nth_append)

lemma c_str_no_NUL: "NUL \<notin> set (c_str m i)"
proof (induction "c_str m i" arbitrary: i)
  case Nil
  then show ?case by simp
next
  case (Cons x xs)
  from c_str_Cons[OF Cons(2)[symmetric]] have "x \<noteq> NUL" "c_str m (i + 1) = xs" by auto
  with Cons(1)[of "i + 1"] Cons(2) show ?case by (metis set_ConsD)
qed

subsection \<open>What the formats match\<close>


lemma isspace_simps [simp]:
  "\<not> isspace EQUALS" "\<not> isspace DQUOTE" "\<not> isspace SQUOTE" "\<not> isspace (CHR '';'')"
  "\<not> isspace (CHR ''#'')" "\<not> isspace NUL" "\<not> isspace BACKSLASH" "isspace NEWLINE"
  by (simp_all add: isspace_def)

lemma scan_key:
  assumes "k \<noteq> []" "EQUALS \<notin> set k"
  shows "scan (Scanset True ''='' # ds) (k @ EQUALS # r) [] = scan ds (EQUALS # r) [k]"
proof -
  have a: "\<forall>x\<in>set k. in_scanset True ''='' x" using assms by (auto simp: in_scanset_def)
  have b: "\<not> in_scanset True ''='' EQUALS" by (simp add: in_scanset_def)
  have "takeWhile (in_scanset True ''='') (k @ EQUALS # r) = k"
    using a b by (simp add: takeWhile_append2)
  moreover have "dropWhile (in_scanset True ''='') (k @ EQUALS # r) = EQUALS # r"
    using a b by (simp add: dropWhile_append2)
  moreover have "in_scanset True ''='' (hd (k @ EQUALS # r))" using a assms(1) by (cases k) auto
  ultimately show ?thesis using assms(1) by (cases k) auto
qed

lemma scan_key_only:
  assumes "s \<noteq> []" "EQUALS \<notin> set s"
  shows "scan (Scanset True ''='' # ds) s [] = scan ds [] [s]"
proof -
  have a: "\<forall>x\<in>set s. in_scanset True ''='' x" using assms by (auto simp: in_scanset_def)
  then have tw: "takeWhile (in_scanset True ''='') s = s" "dropWhile (in_scanset True ''='') s = []"
    by simp_all
  obtain x xs where s: "s = x # xs" using assms(1) by (cases s) auto
  have "in_scanset True ''='' x" using a s by simp
  then have "scan (Scanset True ''='' # ds) (x # xs) [] =
     scan ds (dropWhile (in_scanset True ''='') (x # xs)) ([] @ [takeWhile (in_scanset True ''='') (x # xs)])"
    by (simp del: takeWhile.simps dropWhile.simps)
  then show ?thesis using tw unfolding s by simp
qed

lemma scan_key_EQ: "scan (Scanset True ''='' # ds) (EQUALS # r) [] = (0, [])"
  by (simp add: in_scanset_def)

lemma scan_key_Nil: "scan (Scanset True ''='' # ds) [] [] = (EOF, [])"
  by (simp add: input_failure_def)


lemma scan_eq_ws:
  "scan (WS # Lit EQUALS # WS # ds) (EQUALS # r) outs = scan ds (dropWhile isspace r) outs"
  by simp

lemma scan_quoted_tail:
  "scan [Lit q, Scanset True [q], Lit q] d [k] =
     (if starts_quoted q d then (2, [k, takeWhile (\<lambda>c. c \<noteq> q) (tl d)]) else (1, [k]))"
proof -
  have tw: "takeWhile (in_scanset True [q]) xs = takeWhile (\<lambda>c. c \<noteq> q) xs" for xs
    by (simp add: in_scanset_def cong: takeWhile_cong)
  show ?thesis
    by (cases d)
       (auto simp: input_failure_def in_scanset_def starts_quoted_def tw split: list.splits)
qed

lemma scan_unquoted_tail:
  "scan [Scanset True '';#''] d [k] =
     (if d \<noteq> [] \<and> \<not> starts_comment d
      then (2, [k, takeWhile (\<lambda>c. c \<noteq> CHR '';'' \<and> c \<noteq> CHR ''#'') d]) else (1, [k]))"
proof -
  have tw: "takeWhile (in_scanset True '';#'') xs
              = takeWhile (\<lambda>c. c \<noteq> CHR '';'' \<and> c \<noteq> CHR ''#'') xs" for xs
    by (simp add: in_scanset_def cong: takeWhile_cong)
  show ?thesis
    by (cases d)
       (auto simp: input_failure_def in_scanset_def starts_comment_def tw split: list.splits)
qed

lemma scan_comment_only_tail:
  "scan [Scanset False '';#''] d [k] =
     (if starts_comment d then (2, [k, takeWhile (in_scanset False '';#'') d]) else (1, [k]))"
  by (cases d) (auto simp: input_failure_def in_scanset_def starts_comment_def split: list.splits)

lemma sscanf_dquoted_shape:
  assumes "k \<noteq> []" "EQUALS \<notin> set k"
  shows "sscanf (k @ EQUALS # r) fmt_dquoted =
     (if starts_quoted DQUOTE (dropWhile isspace r)
      then (2, [k, takeWhile (\<lambda>c. c \<noteq> DQUOTE) (tl (dropWhile isspace r))]) else (1, [k]))"
  unfolding sscanf_def fmt_dquoted_def scan_key[OF assms] scan_eq_ws scan_quoted_tail ..

lemma sscanf_squoted_shape:
  assumes "k \<noteq> []" "EQUALS \<notin> set k"
  shows "sscanf (k @ EQUALS # r) fmt_squoted =
     (if starts_quoted SQUOTE (dropWhile isspace r)
      then (2, [k, takeWhile (\<lambda>c. c \<noteq> SQUOTE) (tl (dropWhile isspace r))]) else (1, [k]))"
  unfolding sscanf_def fmt_squoted_def scan_key[OF assms] scan_eq_ws scan_quoted_tail ..

lemma sscanf_unquoted_shape:
  assumes "k \<noteq> []" "EQUALS \<notin> set k"
  shows "sscanf (k @ EQUALS # r) fmt_unquoted =
     (if dropWhile isspace r \<noteq> [] \<and> \<not> starts_comment (dropWhile isspace r)
      then (2, [k, takeWhile (\<lambda>c. c \<noteq> CHR '';'' \<and> c \<noteq> CHR ''#'') (dropWhile isspace r)])
      else (1, [k]))"
  unfolding sscanf_def fmt_unquoted_def scan_key[OF assms] scan_eq_ws scan_unquoted_tail ..

lemma sscanf_comment_only_shape:
  assumes "k \<noteq> []" "EQUALS \<notin> set k"
  shows "sscanf (k @ EQUALS # r) fmt_comment_only =
     (if starts_comment (dropWhile isspace r)
      then (2, [k, takeWhile (in_scanset False '';#'') (dropWhile isspace r)])
      else (1, [k]))"
  unfolding sscanf_def fmt_comment_only_def scan_key[OF assms] scan_eq_ws
    scan_comment_only_tail ..

lemma sscanf_bare_key_shape:
  assumes "k \<noteq> []" "EQUALS \<notin> set k"
  shows "sscanf (k @ EQUALS # r) fmt_bare_key = (2, [k, takeWhile (in_scanset False ''='') (EQUALS # r)])"
  unfolding sscanf_def fmt_bare_key_def scan_key[OF assms]
  by (simp add: in_scanset_def)

lemma sscanf_no_equals:
  assumes "s \<noteq> []" "EQUALS \<notin> set s"
  shows "sscanf s fmt_dquoted = (1, [s])" "sscanf s fmt_squoted = (1, [s])"
    "sscanf s fmt_unquoted = (1, [s])" "sscanf s fmt_comment_only = (1, [s])"
    "sscanf s fmt_bare_key = (1, [s])"
  unfolding sscanf_def fmt_dquoted_def fmt_squoted_def fmt_unquoted_def fmt_comment_only_def
    fmt_bare_key_def scan_key_only[OF assms]
  by (simp_all add: input_failure_def)

lemma sscanf_leading_equals:
  shows "sscanf (EQUALS # r) fmt_dquoted = (0, [])" "sscanf (EQUALS # r) fmt_squoted = (0, [])"
    "sscanf (EQUALS # r) fmt_unquoted = (0, [])" "sscanf (EQUALS # r) fmt_comment_only = (0, [])"
    "sscanf (EQUALS # r) fmt_bare_key = (0, [])"
  unfolding sscanf_def fmt_dquoted_def fmt_squoted_def fmt_unquoted_def fmt_comment_only_def
    fmt_bare_key_def scan_key_EQ
  by simp_all

lemma sscanf_empty:
  shows "sscanf [] fmt_dquoted = (EOF, [])" "sscanf [] fmt_squoted = (EOF, [])"
    "sscanf [] fmt_unquoted = (EOF, [])" "sscanf [] fmt_comment_only = (EOF, [])"
    "sscanf [] fmt_bare_key = (EOF, [])"
  unfolding sscanf_def fmt_dquoted_def fmt_squoted_def fmt_unquoted_def fmt_comment_only_def
    fmt_bare_key_def scan_key_Nil
  by simp_all

subsection \<open>The classification of an assignment line\<close>

lemma strstrip_Nil [simp]: "prv_micro_ini_strstrip [] = []"
  by (simp add: prv_micro_ini_strstrip_def)

lemma unquoted_text_empty:
  "d = [] \<or> starts_comment d \<Longrightarrow> takeWhile (\<lambda>c. c \<noteq> CHR '';'' \<and> c \<noteq> CHR ''#'') d = []"
  by (cases d) (auto simp: starts_comment_def)

lemma parse_line_assignment:
  assumes str: "c_str m p = k @ EQUALS # r"
    and k: "k \<noteq> []" "EQUALS \<notin> set k"
    and len: "len \<noteq> 0"
    and nc: "m p \<noteq> CHR ''#''" "m p \<noteq> CHR '';''"
    and ns: "\<not> (m p = CHR ''['' \<and> m (p + len - 1) = CHR '']'')"
  shows "prv_micro_ini_parse_line m p len sec k0 v0 =
           (LINE_VALUE, sec, prv_micro_ini_strstrip k, assigned_value r)"
proof -
  define d where "d = dropWhile isspace r"
  note sh = sscanf_dquoted_shape[OF k, of r] sscanf_squoted_shape[OF k, of r] sscanf_unquoted_shape[OF k, of r]
     sscanf_comment_only_shape[OF k, of r] sscanf_bare_key_shape[OF k, of r]
  note sh' = sh[folded d_def]
  have pre: "prv_micro_ini_parse_line m p len sec k0 v0 =
     (let (r1, o1) = sscanf (k @ EQUALS # r) fmt_dquoted; (k1, v1) = stored2 o1 (k0, v0) in
        if r1 = 2 then (LINE_VALUE, sec, prv_micro_ini_strstrip k1, quoted_value v1)
        else
        let (r2, o2) = sscanf (k @ EQUALS # r) fmt_squoted; (k2, v2) = stored2 o2 (k1, v1) in
        if r2 = 2 then (LINE_VALUE, sec, prv_micro_ini_strstrip k2, quoted_value v2)
        else
        let (r3, o3) = sscanf (k @ EQUALS # r) fmt_unquoted; (k3, v3) = stored2 o3 (k2, v2) in
        if r3 = 2
        then (LINE_VALUE, sec, prv_micro_ini_strstrip k3, prv_micro_ini_strstrip v3)
        else
        let (r4, o4) = sscanf (k @ EQUALS # r) fmt_comment_only; (k4, v4) = stored2 o4 (k3, v3) in
        if r4 = 2 then (LINE_VALUE, sec, prv_micro_ini_strstrip k4, [])
        else
        let (r5, o5) = sscanf (k @ EQUALS # r) fmt_bare_key; (k5, v5) = stored2 o5 (k4, v4) in
        if r5 = 2 then (LINE_VALUE, sec, prv_micro_ini_strstrip k5, [])
        else (LINE_ERROR, sec, k5, v5))"
  proof -
    have c: "(len = 0) = False" "(m p = CHR ''#'' \<or> m p = CHR '';'') = False"
      "(m p = CHR ''['' \<and> m (p + len - 1) = CHR '']'') = False"
      using len nc ns by auto
    show ?thesis
      unfolding prv_micro_ini_parse_line_def str Let_def c if_False ..
  qed
  have av: "assigned_value r =
      (if starts_quoted DQUOTE d then quoted_value (takeWhile (\<lambda>c. c \<noteq> DQUOTE) (tl d))
      else if starts_quoted SQUOTE d then quoted_value (takeWhile (\<lambda>c. c \<noteq> SQUOTE) (tl d))
      else prv_micro_ini_strstrip (takeWhile (\<lambda>c. c \<noteq> CHR '';'' \<and> c \<noteq> CHR ''#'') d))"
    by (simp add: assigned_value_def d_def Let_def)
  consider (dq) "starts_quoted DQUOTE d"
    | (sq) "\<not> starts_quoted DQUOTE d" "starts_quoted SQUOTE d"
    | (un) "\<not> starts_quoted DQUOTE d" "\<not> starts_quoted SQUOTE d" "d \<noteq> []" "\<not> starts_comment d"
    | (co) "\<not> starts_quoted DQUOTE d" "\<not> starts_quoted SQUOTE d" "starts_comment d"
    | (em) "\<not> starts_quoted DQUOTE d" "\<not> starts_quoted SQUOTE d" "d = []" "\<not> starts_comment d"
    by blast
  then show ?thesis
  proof cases
    case dq
    then show ?thesis unfolding pre sh' av by simp
  next
    case sq
    then show ?thesis unfolding pre sh' av by simp
  next
    case un
    then show ?thesis unfolding pre sh' av by simp
  next
    case co
    then show ?thesis unfolding pre sh' av by (simp add: unquoted_text_empty)
  next
    case em
    then show ?thesis unfolding pre sh' av by simp
  qed
qed

lemma parse_line_no_equals:
  assumes str: "c_str m p = s"
    and s: "s \<noteq> []" "EQUALS \<notin> set s"
    and len: "len \<noteq> 0"
    and nc: "m p \<noteq> CHR ''#''" "m p \<noteq> CHR '';''"
    and ns: "\<not> (m p = CHR ''['' \<and> m (p + len - 1) = CHR '']'')"
  shows "prv_micro_ini_parse_line m p len sec k0 v0 = (LINE_ERROR, sec, s, v0)"
proof -
  have c: "(len = 0) = False" "(m p = CHR ''#'' \<or> m p = CHR '';'') = False"
    "(m p = CHR ''['' \<and> m (p + len - 1) = CHR '']'') = False"
    using len nc ns by auto
  show ?thesis
    unfolding prv_micro_ini_parse_line_def str Let_def c if_False sscanf_no_equals[OF s]
    by simp
qed

lemma parse_line_leading_equals:
  assumes str: "c_str m p = EQUALS # r"
    and len: "len \<noteq> 0"
  shows "prv_micro_ini_parse_line m p len sec k0 v0 = (LINE_ERROR, sec, k0, v0)"
proof -
  have mp: "m p = EQUALS" using c_str_hd[OF str] by simp
  have c: "(len = 0) = False" "(m p = CHR ''#'' \<or> m p = CHR '';'') = False"
    "(m p = CHR ''['' \<and> m (p + len - 1) = CHR '']'') = False"
    using len mp by auto
  show ?thesis
    unfolding prv_micro_ini_parse_line_def str Let_def c if_False sscanf_leading_equals
    by simp
qed

lemma parse_line_empty_string:
  assumes str: "c_str m p = []"
    and len: "len \<noteq> 0"
    and nc: "m p \<noteq> CHR ''#''" "m p \<noteq> CHR '';''"
    and ns: "\<not> (m p = CHR ''['' \<and> m (p + len - 1) = CHR '']'')"
  shows "prv_micro_ini_parse_line m p len sec k0 v0 = (LINE_ERROR, sec, k0, v0)"
proof -
  have c: "(len = 0) = False" "(m p = CHR ''#'' \<or> m p = CHR '';'') = False"
    "(m p = CHR ''['' \<and> m (p + len - 1) = CHR '']'') = False"
    using len nc ns by auto
  show ?thesis
    unfolding prv_micro_ini_parse_line_def str Let_def c if_False sscanf_empty
    by (simp add: EOF_def)
qed

lemma split_at_equals:
  assumes "EQUALS \<in> set s" "hd s \<noteq> EQUALS"
  shows "s = takeWhile (\<lambda>c. c \<noteq> EQUALS) s @ EQUALS # tl (dropWhile (\<lambda>c. c \<noteq> EQUALS) s)"
    and "takeWhile (\<lambda>c. c \<noteq> EQUALS) s \<noteq> []"
    and "EQUALS \<notin> set (takeWhile (\<lambda>c. c \<noteq> EQUALS) s)"
proof -
  have d: "dropWhile (\<lambda>c. c \<noteq> EQUALS) s \<noteq> []" using assms(1) by (simp add: dropWhile_eq_Nil_conv)
  then have "hd (dropWhile (\<lambda>c. c \<noteq> EQUALS) s) = EQUALS"
    using hd_dropWhile[of "\<lambda>c. c \<noteq> EQUALS" s] by auto
  with d have "dropWhile (\<lambda>c. c \<noteq> EQUALS) s = EQUALS # tl (dropWhile (\<lambda>c. c \<noteq> EQUALS) s)"
    by (cases "dropWhile (\<lambda>c. c \<noteq> EQUALS) s") auto
  then show "s = takeWhile (\<lambda>c. c \<noteq> EQUALS) s @ EQUALS # tl (dropWhile (\<lambda>c. c \<noteq> EQUALS) s)"
    by (metis takeWhile_dropWhile_id)
  show "takeWhile (\<lambda>c. c \<noteq> EQUALS) s \<noteq> []" using assms by (cases s) auto
  show "EQUALS \<notin> set (takeWhile (\<lambda>c. c \<noteq> EQUALS) s)" by (auto dest: set_takeWhileD)
qed

subsection \<open>Facts about \<^verbatim>\<open>prv_micro_ini_strstrip\<close>\<close>

lemma strstrip_trimmed:
  "prv_micro_ini_strstrip s \<noteq> [] \<Longrightarrow>
     \<not> isspace (hd (prv_micro_ini_strstrip s)) \<and> \<not> isspace (last (prv_micro_ini_strstrip s))"
proof -
  assume ne: "prv_micro_ini_strstrip s \<noteq> []"
  define a where "a = dropWhile isspace s"
  define b where "b = dropWhile isspace (rev a)"
  have st: "prv_micro_ini_strstrip s = rev b" by (simp add: prv_micro_ini_strstrip_def a_def b_def)
  with ne have bne: "b \<noteq> []" by simp
  then have hb: "\<not> isspace (hd b)" unfolding b_def using hd_dropWhile by metis
  have "rev a = takeWhile isspace (rev a) @ b" by (simp add: b_def)
  then have "a = rev b @ rev (takeWhile isspace (rev a))" by (metis rev_append rev_rev_ident)
  moreover have "a \<noteq> []" using bne b_def by auto
  then have "\<not> isspace (hd a)" unfolding a_def using hd_dropWhile by metis
  ultimately have "\<not> isspace (hd (rev b))" using bne by (metis hd_append2 rev_is_Nil_conv)
  moreover have "last (rev b) = hd b" using bne by (simp add: last_rev)
  ultimately show ?thesis using hb st by simp
qed

lemma strstrip_subset: "set (prv_micro_ini_strstrip s) \<subseteq> set s"
proof -
  have "set (dropWhile isspace (rev (dropWhile isspace s))) \<subseteq> set (rev (dropWhile isspace s))"
    by (rule set_dropWhileD[THEN subsetI]) 
  also have "\<dots> \<subseteq> set s" by (auto dest: set_dropWhileD)
  finally show ?thesis by (simp add: prv_micro_ini_strstrip_def)
qed

lemma strstrip_nonempty:
  "s \<noteq> [] \<Longrightarrow> \<not> isspace (hd s) \<Longrightarrow> prv_micro_ini_strstrip s \<noteq> []"
  by (cases s) (auto simp: prv_micro_ini_strstrip_def)

lemma strstrip_id:
  "s \<noteq> [] \<Longrightarrow> \<not> isspace (hd s) \<Longrightarrow> \<not> isspace (last s) \<Longrightarrow> prv_micro_ini_strstrip s = s"
proof -
  assume a: "s \<noteq> []" "\<not> isspace (hd s)" "\<not> isspace (last s)"
  then have 1: "dropWhile isspace s = s" by (cases s) auto
  have "rev s \<noteq> []" "\<not> isspace (hd (rev s))" using a by (simp_all add: hd_rev)
  then have "dropWhile isspace (rev s) = rev s" by (cases "rev s") auto
  with 1 show ?thesis by (simp add: prv_micro_ini_strstrip_def)
qed

lemma dropWhile_keeps: "x \<in> set xs \<Longrightarrow> \<not> P x \<Longrightarrow> x \<in> set (dropWhile P xs)"
  by (induction xs) auto

lemma strstrip_keeps: "x \<in> set s \<Longrightarrow> \<not> isspace x \<Longrightarrow> x \<in> set (prv_micro_ini_strstrip s)"
  by (simp add: prv_micro_ini_strstrip_def dropWhile_keeps)

lemma strstrip_dropWhile [simp]:
  "prv_micro_ini_strstrip (dropWhile isspace s) = prv_micro_ini_strstrip s"
  by (simp add: prv_micro_ini_strstrip_def)

lemma quoted_value_keeps:
  assumes "x \<in> set t" "x = CHR '';'' \<or> x = CHR ''#''"
  shows "quoted_value t = prv_micro_ini_strstrip t"
proof -
  have "\<not> isspace x" using assms(2) by auto
  then have "x \<in> set (prv_micro_ini_strstrip t)" using assms(1) by (rule strstrip_keeps[rotated])
  then have "prv_micro_ini_strstrip t \<noteq> [DQUOTE, DQUOTE]" "prv_micro_ini_strstrip t \<noteq> [SQUOTE, SQUOTE]"
    using assms(2) by auto
  then show ?thesis by (simp add: quoted_value_def Let_def)
qed

lemma dropWhile_space_append:
  assumes "list_all isspace w" "\<not> isspace x"
  shows "dropWhile isspace (w @ x # xs) = x # xs"
  using assms by (induction w) auto

lemma assigned_value_quoted:
  assumes q: "q = DQUOTE \<or> q = SQUOTE"
    and w: "list_all isspace w"
    and t: "q \<notin> set t" "t \<noteq> []"
  shows "assigned_value (w @ [q] @ t @ [q] @ rest) = quoted_value t"
proof -
  have nq: "\<not> isspace q" using q by auto
  have d: "dropWhile isspace (w @ [q] @ t @ [q] @ rest) = q # t @ q # rest"
    using dropWhile_space_append[OF w nq] by simp
  obtain y ys where ty: "t = y # ys" using t(2) by (cases t) auto
  have sq: "starts_quoted q (q # t @ q # rest)" using t(1) ty by (auto simp: starts_quoted_def)
  have "\<forall>x\<in>set t. x \<noteq> q" using t(1) by auto
  then have tw: "takeWhile (\<lambda>c. c \<noteq> q) (t @ q # rest) = t"
    by (simp add: takeWhile_append2)
  have other: "\<not> starts_quoted q' (q # t @ q # rest)" if "q' \<noteq> q" for q'
    using that ty by (simp add: starts_quoted_def)
  show ?thesis
    using q sq tw other[of DQUOTE] other[of SQUOTE]
    unfolding assigned_value_def d Let_def by auto
qed

lemma assigned_value_unquoted:
  assumes c: "c = CHR '';'' \<or> c = CHR ''#''"
    and v: "CHR '';'' \<notin> set v" "CHR ''#'' \<notin> set v"
    and nq: "dropWhile isspace v = [] \<or> (hd (dropWhile isspace v) \<noteq> DQUOTE \<and> hd (dropWhile isspace v) \<noteq> SQUOTE)"
  shows "assigned_value (v @ [c] @ rest) = prv_micro_ini_strstrip v"
proof -
  define d where "d = dropWhile isspace v"
  have nc: "\<not> isspace c" using c by auto
  have dd: "dropWhile isspace (v @ [c] @ rest) = d @ c # rest"
  proof (cases "d = []")
    case True
    then have "list_all isspace v" by (simp add: d_def list_all_iff)
    from dropWhile_space_append[OF this nc] True show ?thesis by simp
  next
    case False
    then obtain x where "x \<in> set v" "\<not> isspace x" by (auto simp: d_def)
    then have "dropWhile isspace (v @ (c # rest)) = dropWhile isspace v @ (c # rest)"
      by (rule dropWhile_append1)
    then show ?thesis by (simp add: d_def)
  qed
  have hdq: "hd (d @ c # rest) \<noteq> DQUOTE" "hd (d @ c # rest) \<noteq> SQUOTE"
    using nq c unfolding d_def[symmetric] by (cases d; auto)+
  have nsq: "\<not> starts_quoted DQUOTE (d @ c # rest)" "\<not> starts_quoted SQUOTE (d @ c # rest)"
    using hdq by (cases "d @ c # rest"; auto simp: starts_quoted_def split: list.splits)+
  have "set d \<subseteq> set v" by (auto simp: d_def dest: set_dropWhileD)
  then have "\<forall>x\<in>set d. x \<noteq> CHR '';'' \<and> x \<noteq> CHR ''#''" using v by auto
  then have tw: "takeWhile (\<lambda>c. c \<noteq> CHR '';'' \<and> c \<noteq> CHR ''#'') (d @ c # rest) = d"
    using c by (simp add: takeWhile_append2)
  show ?thesis
    unfolding assigned_value_def dd Let_def using nsq tw by (simp add: d_def)
qed

section \<open>Properties of the parse loop\<close>

subsection \<open>Invariants\<close>


subsection \<open>The cases of one iteration\<close>


subsection \<open>The return value counts the malformed lines\<close>


lemma malformed_lines_append [simp]:
  "malformed_lines (a @ b) = malformed_lines a + malformed_lines b"
  by (simp add: malformed_lines_def)

lemma malformed_lines_simps [simp]:
  "malformed_lines [] = 0"
  "malformed_lines (Reader_call c # tr) = malformed_lines tr"
  "malformed_lines (Eof_call b # tr) = malformed_lines tr"
  "malformed_lines (Handler_call s k v # tr) = malformed_lines tr"
  "malformed_lines (Error_call l n # tr) = malformed_lines tr"
  "malformed_lines (Parse_line t len st s # tr) = (if st = LINE_ERROR then 1 else 0) + malformed_lines tr"
  by (simp_all add: malformed_lines_def)


subsection \<open>Reading a line into the array\<close>


lemma store_inside: "off \<le> i \<Longrightarrow> i < off + int (length bs) \<Longrightarrow> store m off bs i = bs ! nat (i - off)"
  by (simp add: store_def)






subsection \<open>Runs on memories that agree\<close>











subsection \<open>Texts in the array\<close>







lemma rtrim_append_space: "list_all isspace ws \<Longrightarrow> x \<noteq> [] \<Longrightarrow> \<not> isspace (last x) \<Longrightarrow> rtrim (x @ ws) = x"
proof -
  assume a: "list_all isspace ws" "x \<noteq> []" "\<not> isspace (last x)"
  have "dropWhile isspace (rev ws @ rev x) = dropWhile isspace (rev x)"
    using a(1) by (induction ws rule: rev_induct) (auto simp: list_all_iff dropWhile_append)
  moreover have "dropWhile isspace (rev x) = rev x" using a(2,3) by (cases x rule: rev_cases) auto
  ultimately show ?thesis by (simp add: rtrim_def)
qed



subsection \<open>Continuation lines\<close>







subsection \<open>Stopping at the first error; a full buffer\<close>




subsection \<open>The section buffer\<close>


lemma last_section_append:
  "last_section cur (a @ b) = last_section (last_section cur a) b"
  by (induction cur a rule: last_section.induct) auto



lemma last_section_simps [simp]:
  "last_section cur (tr @ [Reader_call c]) = last_section cur tr"
  "last_section cur (tr @ [Eof_call b]) = last_section cur tr"
  "last_section cur (tr @ [Handler_call s k v]) = last_section cur tr"
  "last_section cur (tr @ [Error_call raw n]) = last_section cur tr"
  "last_section cur (tr @ [Parse_line txt len status s']) = s'"
  by (simp_all add: last_section_append)


subsection \<open>One complete line\<close>

lemma shift_zero [simp]: "map (shift 0) ev = ev"
proof -
  have "shift 0 x = x" for x by (cases x) auto
  then show ?thesis by (simp add: map_idI)
qed










section \<open>The claims\<close>

subsection \<open>C1: empty values\<close>

text \<open>
  C1.  A line \<^verbatim>\<open>key=""\<close>, \<^verbatim>\<open>key=''\<close>, \<^verbatim>\<open>key=\<close>, \<^verbatim>\<open>key=;\<close> or \<^verbatim>\<open>key=#\<close> is to be classified as a
  value line with the empty string as value.  The classifier does so for the last
  three; for \<^verbatim>\<open>key=""\<close> and \<^verbatim>\<open>key=''\<close> the two quoted formats fail on the empty run between
  the quotes, the unquoted format matches, and its branch (lines 163--170) does not
  have the normalisation of lines 156--159: the value stored, and handed to the
  handler callback, is the two quote characters.
\<close>

theorem empty_quotes_are_kept:
  "prv_micro_ini_parse_line (mem_of (''key='' @ [DQUOTE, DQUOTE])) 0 6 sec kb vb
     = (LINE_VALUE, sec, ''key'', [DQUOTE, DQUOTE])
   \<and> prv_micro_ini_parse_line (mem_of (''key='' @ [SQUOTE, SQUOTE])) 0 6 sec kb vb
     = (LINE_VALUE, sec, ''key'', [SQUOTE, SQUOTE])
   \<and> prv_micro_ini_parse_line (mem_of ''key='') 0 4 sec kb vb = (LINE_VALUE, sec, ''key'', [])
   \<and> prv_micro_ini_parse_line (mem_of ''key=;'') 0 5 sec kb vb = (LINE_VALUE, sec, ''key'', [])
   \<and> prv_micro_ini_parse_line (mem_of ''key=#'') 0 5 sec kb vb = (LINE_VALUE, sec, ''key'', [])
   \<and> micro_ini_load_stream (Some (file_of (''key='' @ [DQUOTE, DQUOTE, NEWLINE]))) 0
         True errorCallback True True stack
     = (Returned 0,
        [Reader_call (Some (''key='' @ [DQUOTE, DQUOTE, NEWLINE])),
         Parse_line (''key='' @ [DQUOTE, DQUOTE]) 6 LINE_VALUE [],
         Handler_call [] ''key'' [DQUOTE, DQUOTE],
         Reader_call None])"
  by code_simp

subsection \<open>C2: the value returned\<close>



subsection \<open>C3: quoted values keep \<^verbatim>\<open>;\<close> and \<^verbatim>\<open>#\<close>, unquoted values end there\<close>

text \<open>
  C3.  For a line \<open>key = q text q ...\<close> (\<open>q\<close> a double or a single quote, \<open>text\<close> without
  \<open>q\<close>) whose quoted text contains \<^verbatim>\<open>;\<close> or \<^verbatim>\<open>#\<close>, the value delivered is the whole quoted
  text, trimmed, so every \<^verbatim>\<open>;\<close> and \<^verbatim>\<open>#\<close> of it is kept: the quoted formats are tried
  first.  For a line \<open>key = v c ...\<close> where \<open>c\<close> is the first \<^verbatim>\<open>;\<close> or \<^verbatim>\<open>#\<close> behind the \<open>=\<close>
  and \<open>v\<close> does not begin with a quote, the value delivered is \<open>v\<close>, trimmed.  The line
  is the C string in memory, of the length the caller passes; its key does not make
  it a comment or a section header.
\<close>

theorem quoted_value_keeps_comment_chars_unquoted_is_cut:
  assumes str: "c_str m p = s" and len: "len = int (length s)"
    and key: "k \<noteq> []" "EQUALS \<notin> set k" "hd k \<noteq> CHR ''#''" "hd k \<noteq> CHR '';''"
    and not_section: "\<not> (hd k = CHR ''['' \<and> last s = CHR '']'')"
  shows "(s = k @ [EQUALS] @ w @ [q] @ t @ [q] @ rest
            \<and> list_all isspace w \<and> (q = DQUOTE \<or> q = SQUOTE) \<and> q \<notin> set t
            \<and> (CHR '';'' \<in> set t \<or> CHR ''#'' \<in> set t)
          \<longrightarrow> prv_micro_ini_parse_line m p len sec kb vb
                = (LINE_VALUE, sec, prv_micro_ini_strstrip k, prv_micro_ini_strstrip t)
              \<and> (\<forall>x\<in>set t. x = CHR '';'' \<or> x = CHR ''#'' \<longrightarrow> x \<in> set (prv_micro_ini_strstrip t)))
       \<and> (s = k @ [EQUALS] @ v @ [c] @ rest'
            \<and> (c = CHR '';'' \<or> c = CHR ''#'') \<and> CHR '';'' \<notin> set v \<and> CHR ''#'' \<notin> set v
            \<and> (dropWhile isspace v = []
                 \<or> (hd (dropWhile isspace v) \<noteq> DQUOTE \<and> hd (dropWhile isspace v) \<noteq> SQUOTE))
          \<longrightarrow> prv_micro_ini_parse_line m p len sec kb vb
                = (LINE_VALUE, sec, prv_micro_ini_strstrip k, prv_micro_ini_strstrip v))"
proof -
  have facts: "prv_micro_ini_parse_line m p len sec kb vb
                 = (LINE_VALUE, sec, prv_micro_ini_strstrip k, assigned_value r)"
    if s: "s = k @ EQUALS # r" for r
  proof -
    have sne: "s \<noteq> []" using s by simp
    have hd: "hd s = hd k" using s key(1) by simp
    have mp: "m p = hd k" using c_str_hd[OF str sne] hd by simp
    have ml: "m (p + len - 1) = last s" using c_str_last[OF str sne] len by simp
    have l0: "len \<noteq> 0" using len sne by simp
    show ?thesis
      using parse_line_assignment[OF _ key(1,2) l0, of m p r sec kb vb] str s mp ml key(3,4) not_section
      by simp
  qed
  have quoted: "prv_micro_ini_parse_line m p len sec kb vb
                = (LINE_VALUE, sec, prv_micro_ini_strstrip k, prv_micro_ini_strstrip t)"
    if "s = k @ [EQUALS] @ w @ [q] @ t @ [q] @ rest" "list_all isspace w"
       "q = DQUOTE \<or> q = SQUOTE" "q \<notin> set t" "CHR '';'' \<in> set t \<or> CHR ''#'' \<in> set t"
  proof -
    have tne: "t \<noteq> []" using that(5) by auto
    have "assigned_value (w @ [q] @ t @ [q] @ rest) = quoted_value t"
      using assigned_value_quoted[OF that(3,2,4) tne] .
    moreover have "quoted_value t = prv_micro_ini_strstrip t"
      using that(5) quoted_value_keeps by blast
    ultimately show ?thesis using facts[of "w @ [q] @ t @ [q] @ rest"] that(1) by simp
  qed
  have kept: "\<forall>x\<in>set t. x = CHR '';'' \<or> x = CHR ''#'' \<longrightarrow> x \<in> set (prv_micro_ini_strstrip t)"
    by (auto intro: strstrip_keeps)
  have unquoted: "prv_micro_ini_parse_line m p len sec kb vb
                = (LINE_VALUE, sec, prv_micro_ini_strstrip k, prv_micro_ini_strstrip v)"
    if "s = k @ [EQUALS] @ v @ [c] @ rest'" "c = CHR '';'' \<or> c = CHR ''#''"
       "CHR '';'' \<notin> set v" "CHR ''#'' \<notin> set v"
       "dropWhile isspace v = []
          \<or> (hd (dropWhile isspace v) \<noteq> DQUOTE \<and> hd (dropWhile isspace v) \<noteq> SQUOTE)"
    using facts[of "v @ [c] @ rest'"] assigned_value_unquoted[OF that(2,3,4,5)] that(1) by simp
  show ?thesis using quoted kept unquoted by blast
qed

theorem quoted_value_keeps_comment_chars_unquoted_is_cut_witness:
  "prv_micro_ini_parse_line (mem_of (''name = '' @ [DQUOTE] @ ''a;b #c'' @ [DQUOTE] @ '' ; note'')) 0 22
       [] [] [] = (LINE_VALUE, [], ''name'', ''a;b #c'')
   \<and> prv_micro_ini_parse_line (mem_of ''port = 8080 # note'') 0 18 [] [] []
       = (LINE_VALUE, [], ''port'', ''8080'')"
proof -
  let ?s1 = "''name = '' @ [DQUOTE] @ ''a;b #c'' @ [DQUOTE] @ '' ; note''"
  let ?s2 = "''port = 8080 # note''"
  have str1: "c_str (mem_of ?s1) 0 = ?s1" by code_simp
  have str2: "c_str (mem_of ?s2) 0 = ?s2" by code_simp
  have sp: "isspace (CHR '' '')" by (simp add: isspace_def)
  have "prv_micro_ini_parse_line (mem_of ?s1) 0 22 [] [] []
          = (LINE_VALUE, [], prv_micro_ini_strstrip ''name '', prv_micro_ini_strstrip ''a;b #c'')"
    using quoted_value_keeps_comment_chars_unquoted_is_cut[OF str1,
        where len = 22 and k = "''name ''" and w = "'' ''" and q = DQUOTE and t = "''a;b #c''"
          and rest = "'' ; note''" and sec = "[]" and kb = "[]" and vb = "[]"] sp
    by simp
  moreover have "prv_micro_ini_parse_line (mem_of ?s2) 0 18 [] [] []
          = (LINE_VALUE, [], prv_micro_ini_strstrip ''port '', prv_micro_ini_strstrip '' 8080 '')"
    using quoted_value_keeps_comment_chars_unquoted_is_cut[OF str2,
        where len = 18 and k = "''port ''" and v = "'' 8080 ''" and c = "CHR ''#''"
          and rest' = "'' note''" and sec = "[]" and kb = "[]" and vb = "[]"]
    by (simp add: isspace_def)
  moreover have "prv_micro_ini_strstrip ''name '' = ''name''"
    "prv_micro_ini_strstrip ''a;b #c'' = ''a;b #c''"
    "prv_micro_ini_strstrip ''port '' = ''port''"
    "prv_micro_ini_strstrip '' 8080 '' = ''8080''"
    by code_simp+
  ultimately show ?thesis by simp
qed

subsection \<open>C4: continuation lines\<close>




subsection \<open>C5: the section buffer\<close>



subsection \<open>C6: the four checks\<close>

text \<open>
  C6.  A null stream, a null handler callback, a null reader callback and a null eof
  callback make \<^verbatim>\<open>micro_ini_load_stream\<close> return \<open>-2\<close>, \<open>-3\<close>, \<open>-4\<close> and \<open>-5\<close>, checked in this
  order (whatever the arguments that are checked later), before anything else is
  done: the trace is empty, so neither the reader nor the eof, handler or error
  callback has been called.
\<close>

theorem preconditions_are_checked_before_reading:
  "micro_ini_load_stream None flags handlerCallback errorCallback readerCallback eofCallback stack
     = (Returned (- 2), [])
   \<and> micro_ini_load_stream (Some st) flags False errorCallback readerCallback eofCallback stack
     = (Returned (- 3), [])
   \<and> micro_ini_load_stream (Some st) flags True errorCallback False eofCallback stack
     = (Returned (- 4), [])
   \<and> micro_ini_load_stream (Some st) flags True errorCallback True False stack
     = (Returned (- 5), [])"
  by (simp add: micro_ini_load_stream_def MICRO_INI_ERROR_INVALID_STREAM_OBJECT_def
      MICRO_INI_ERROR_INVALID_HANDLER_CALLBACK_def MICRO_INI_ERROR_INVALID_READER_CALLBACK_def
      MICRO_INI_ERROR_INVALID_EOF_CALLBACK_def)

subsection \<open>C7: a line that does not fit\<close>



subsection \<open>C8: stop on the first error\<close>



subsection \<open>C9: the byte order marker\<close>

text \<open>
  C9.  With \<open>MICRO_INI_FLAG_BOM\<close> set and the marker in front, the first line is to be
  handled as the same line without the marker.  It is not: \<^verbatim>\<open>start\<close> is moved by 3
  (line 313) but \<^verbatim>\<open>len\<close> still counts from the beginning of the array, so the classifier
  gets a length that is 3 too large and tests \<^verbatim>\<open>line[len - 1]\<close> three bytes behind the
  last character.  In a file with CR LF line ends that byte is the terminator the
  reader stored, whatever the array held before: the header \<^verbatim>\<open>[s]\<close> behind a marker is
  a syntax error and the value below it is reported with an empty section, where
  the same file without the marker gives section \<^verbatim>\<open>s\<close> and no error.  An empty first
  line behind the marker is classified (as an error) instead of being skipped.
\<close>

theorem marker_breaks_section_header:
  "micro_ini_load_stream
      (Some (file_of ([CHR 0xEF, CHR 0xBB, CHR 0xBF] @ ''[s]'' @ [CHR 0x0D, NEWLINE]
                        @ ''k=v'' @ [CHR 0x0D, NEWLINE])))
      MICRO_INI_FLAG_BOM True True True True stack
    = (Returned 1,
       [Reader_call (Some ([CHR 0xEF, CHR 0xBB, CHR 0xBF] @ ''[s]'' @ [CHR 0x0D, NEWLINE])),
        Parse_line ''[s]'' 6 LINE_ERROR [],
        Error_call ([CHR 0xEF, CHR 0xBB, CHR 0xBF] @ ''[s]'') 1,
        Reader_call (Some (''k=v'' @ [CHR 0x0D, NEWLINE])),
        Parse_line ''k=v'' 3 LINE_VALUE [],
        Handler_call [] ''k'' ''v'',
        Reader_call None])
   \<and> micro_ini_load_stream
      (Some (file_of (''[s]'' @ [CHR 0x0D, NEWLINE] @ ''k=v'' @ [CHR 0x0D, NEWLINE])))
      MICRO_INI_FLAG_BOM True True True True stack
    = (Returned 0,
       [Reader_call (Some (''[s]'' @ [CHR 0x0D, NEWLINE])),
        Parse_line ''[s]'' 3 LINE_SECTION ''s'',
        Reader_call (Some (''k=v'' @ [CHR 0x0D, NEWLINE])),
        Parse_line ''k=v'' 3 LINE_VALUE ''s'',
        Handler_call ''s'' ''k'' ''v'',
        Reader_call None])
   \<and> micro_ini_load_stream
      (Some (file_of ([CHR 0xEF, CHR 0xBB, CHR 0xBF] @ [NEWLINE])))
      MICRO_INI_FLAG_BOM True True True True stack
    = (Returned 1,
       [Reader_call (Some ([CHR 0xEF, CHR 0xBB, CHR 0xBF] @ [NEWLINE])),
        Parse_line [] 3 LINE_ERROR [],
        Error_call [CHR 0xEF, CHR 0xBB, CHR 0xBF] 1,
        Reader_call None])
   \<and> micro_ini_load_stream (Some (file_of [NEWLINE]))
      MICRO_INI_FLAG_BOM True True True True stack
    = (Returned 0, [Reader_call (Some [NEWLINE]), Reader_call None])"
  by code_simp

subsection \<open>C10: a value line has a key and an \<^verbatim>\<open>=\<close>\<close>

text \<open>
  C10.  For a trimmed, non-empty line that is neither a comment nor a section header,
  the status is \<open>LINE_VALUE\<close> exactly when the line contains an \<^verbatim>\<open>=\<close> and does not begin
  with one, and \<open>LINE_ERROR\<close> otherwise (so a line with no \<^verbatim>\<open>=\<close>, or one that begins with
  \<^verbatim>\<open>=\<close>, is a syntax error); the key of a value line is the text before the first \<^verbatim>\<open>=\<close>,
  trimmed: it is not empty, has no \<^verbatim>\<open>=\<close> and no whitespace at either end.
\<close>

theorem value_needs_key_and_equals:
  assumes str: "c_str m p = s" and len: "len = int (length s)"
    and trimmed: "s \<noteq> []" "\<not> isspace (hd s)" "\<not> isspace (last s)"
    and not_comment: "hd s \<noteq> CHR ''#''" "hd s \<noteq> CHR '';''"
    and not_section: "\<not> (hd s = CHR ''['' \<and> last s = CHR '']'')"
    and res: "prv_micro_ini_parse_line m p len sec kb vb = (status, sec', k', v')"
  shows "status = (if EQUALS \<in> set s \<and> hd s \<noteq> EQUALS then LINE_VALUE else LINE_ERROR)
       \<and> (status = LINE_VALUE \<longrightarrow>
            k' = prv_micro_ini_strstrip (takeWhile (\<lambda>c. c \<noteq> EQUALS) s)
            \<and> k' \<noteq> [] \<and> EQUALS \<notin> set k' \<and> \<not> isspace (hd k') \<and> \<not> isspace (last k'))
       \<and> (EQUALS \<notin> set s \<or> hd s = EQUALS \<longrightarrow> status = LINE_ERROR)"
proof -
  have mp: "m p = hd s" using c_str_hd[OF str trimmed(1)] .
  have ml: "m (p + len - 1) = last s" using c_str_last[OF str trimmed(1)] len by simp
  have l0: "len \<noteq> 0" using len trimmed(1) by simp
  have nc: "m p \<noteq> CHR ''#''" "m p \<noteq> CHR '';''" using mp not_comment by simp_all
  have ns: "\<not> (m p = CHR ''['' \<and> m (p + len - 1) = CHR '']'')" using mp ml not_section by simp
  show ?thesis
  proof (cases "EQUALS \<in> set s \<and> hd s \<noteq> EQUALS")
    case True
    define k where "k = takeWhile (\<lambda>c. c \<noteq> EQUALS) s"
    define r where "r = tl (dropWhile (\<lambda>c. c \<noteq> EQUALS) s)"
    from True split_at_equals[of s]
    have sp: "s = k @ EQUALS # r" "k \<noteq> []" "EQUALS \<notin> set k" by (simp_all add: k_def r_def)
    have "prv_micro_ini_parse_line m p len sec kb vb
            = (LINE_VALUE, sec, prv_micro_ini_strstrip k, assigned_value r)"
      using parse_line_assignment[OF _ sp(2,3) l0 nc ns] str sp(1) by simp
    with res have st: "status = LINE_VALUE" and k': "k' = prv_micro_ini_strstrip k" by simp_all
    have "hd k = hd s" using sp(1,2) by (metis hd_append2)
    then have "\<not> isspace (hd k)" using trimmed(2) by simp
    then have ne: "k' \<noteq> []" using strstrip_nonempty[OF sp(2)] k' by simp
    have "set k' \<subseteq> set k" using strstrip_subset k' by simp
    then have "EQUALS \<notin> set k'" using sp(3) by auto
    moreover have "\<not> isspace (hd k') \<and> \<not> isspace (last k')"
      using strstrip_trimmed[of k] ne k' by simp
    ultimately show ?thesis using True st k' ne by (simp add: k_def)
  next
    case False
    have "status = LINE_ERROR"
    proof (cases "EQUALS \<in> set s")
      case True
      with False have "hd s = EQUALS" by simp
      then obtain r where "s = EQUALS # r" using trimmed(1) by (cases s) auto
      then have "prv_micro_ini_parse_line m p len sec kb vb = (LINE_ERROR, sec, kb, vb)"
        using parse_line_leading_equals[OF _ l0] str by simp
      with res show ?thesis by simp
    next
      case ne: False
      have "prv_micro_ini_parse_line m p len sec kb vb = (LINE_ERROR, sec, s, vb)"
        using parse_line_no_equals[OF str trimmed(1) ne l0 nc ns] .
      with res show ?thesis by simp
    qed
    then show ?thesis using False by auto
  qed
qed

theorem value_needs_key_and_equals_witness:
  "c_str (mem_of ''port = 8080'') 0 = ''port = 8080''
   \<and> prv_micro_ini_parse_line (mem_of ''port = 8080'') 0 11 [] [] []
        = (LINE_VALUE, [], ''port'', ''8080'')
   \<and> LINE_VALUE = (if EQUALS \<in> set ''port = 8080'' \<and> hd ''port = 8080'' \<noteq> EQUALS
                    then LINE_VALUE else LINE_ERROR)
   \<and> ''port'' = prv_micro_ini_strstrip (takeWhile (\<lambda>c. c \<noteq> EQUALS) ''port = 8080'')
   \<and> c_str (mem_of ''bad line'') 0 = ''bad line''
   \<and> prv_micro_ini_parse_line (mem_of ''bad line'') 0 8 [] [] []
        = (LINE_ERROR, [], ''bad line'', [])"
proof -
  have a: "c_str (mem_of ''port = 8080'') 0 = ''port = 8080''" by code_simp
  have b: "prv_micro_ini_parse_line (mem_of ''port = 8080'') 0 11 [] [] []
        = (LINE_VALUE, [], ''port'', ''8080'')" by code_simp
  have c: "c_str (mem_of ''bad line'') 0 = ''bad line''" by code_simp
  have d: "prv_micro_ini_parse_line (mem_of ''bad line'') 0 8 [] [] []
        = (LINE_ERROR, [], ''bad line'', [])" by code_simp
  have sp: "\<not> isspace (CHR ''p'')" "\<not> isspace (CHR ''0'')" "\<not> isspace (CHR ''b'')"
     "\<not> isspace (CHR ''e'')" by (simp_all add: isspace_def)
  from value_needs_key_and_equals[OF a _ _ _ _ _ _ _ b]
  have "LINE_VALUE = (if EQUALS \<in> set ''port = 8080'' \<and> hd ''port = 8080'' \<noteq> EQUALS
                    then LINE_VALUE else LINE_ERROR)
       \<and> ''port'' = prv_micro_ini_strstrip (takeWhile (\<lambda>c. c \<noteq> EQUALS) ''port = 8080'')"
    using sp by simp
  moreover from value_needs_key_and_equals[OF c _ _ _ _ _ _ _ d]
  have "LINE_ERROR = LINE_ERROR" by simp
  ultimately show ?thesis using a b c d by simp
qed

end
